theory Spec2Isabelle
  imports Complex_Main
begin

section \<open>Reactor Core: the puzzle logic of \<open>src/App.jsx\<close>\<close>

text \<open>
  The game state of the \<open>App\<close> component is a handful of numbers and small arrays. The
  logic that acts on them is embedded here function by function: \<open>generateDeck\<close>,
  \<open>calculateMinMoves\<close>, \<open>initLevel\<close>, \<open>handleCardClick\<close> and \<open>handleUndo\<close>.

  JavaScript numbers are modelled as \<open>int\<close>: every number of the game logic is an integer far
  below \<open>2^53\<close>, where the double arithmetic used (\<open>+\<close>, \<open>-\<close>, comparison, \<open>Math.abs\<close>) is
  exact. The draws of \<open>Math.random()\<close> are modelled as values of type \<open>real\<close>, passed in
  explicitly.
\<close>

subsection \<open>Cards\<close>

text \<open>
  A card object has the fields \<open>id\<close>, \<open>type\<close>, \<open>value\<close>, \<open>symbol\<close>, \<open>name\<close> and \<open>ariaLabel\<close>.
  Only \<open>type\<close> (the string \<open>'matter'\<close> or \<open>'antimatter'\<close>) and \<open>value\<close> are read by the game
  logic; the other four are used for rendering only and are left out. The field \<open>value\<close> is
  called \<open>val\<close>, after the parameter of \<open>create\<close> that fills it.
\<close>

datatype kind = Matter | Antimatter

record card =
  type :: kind
  val :: int

text \<open>
  \<^verbatim>\<open>const delta = card.type === 'antimatter' ? -card.value : card.value;\<close>
  (the same expression in \<open>calculateMinMoves\<close> and in \<open>handleCardClick\<close>).
\<close>

definition delta :: "card \<Rightarrow> int" where
  "delta c = (if type c = Antimatter then - val c else val c)"

subsection \<open>The minimum-move solver\<close>

text \<open>
  \<^verbatim>\<open>
  const calculateMinMoves = (target, availableCards) => {
    const queue = [{ current: 0, moves: 0 }];
    const visited = new Set(['0']);
    while (queue.length > 0) {
      const { current, moves } = queue.shift();
      if (current === target) return moves;
      for (const card of availableCards) {
        const delta = card.type === 'antimatter' ? -card.value : card.value;
        const next = current + delta;
        if (!visited.has(`${next}`) && Math.abs(next) <= Math.abs(target) + 15 && moves < 8) {
          visited.add(`${next}`);
          queue.push({ current: next, moves: moves + 1 });
        }
      }
    }
    return 1;
  };
  \<close>
  The queue is a list of pairs \<open>(current, moves)\<close>, \<open>shift\<close> takes its head and \<open>push\<close> appends.
  The set \<open>visited\<close> holds the decimal strings of the sums seen; the decimal string of an
  integer determines it, so the set is modelled as a set of integers.

  The \<open>for\<close> loop over the cards is \<open>expand\<close>: it threads the queue and the visited set
  through the cards in order.
\<close>

fun expand :: "int \<Rightarrow> int \<Rightarrow> int \<Rightarrow> card list \<Rightarrow> (int \<times> int) list \<times> int set
    \<Rightarrow> (int \<times> int) list \<times> int set" where
  "expand target current moves [] (queue, visited) = (queue, visited)"
| "expand target current moves (c # cards) (queue, visited) =
     (let next = current + delta c in
      if next \<notin> visited \<and> \<bar>next\<bar> \<le> \<bar>target\<bar> + 15 \<and> moves < 8
      then expand target current moves cards (queue @ [(next, moves + 1)], insert next visited)
      else expand target current moves cards (queue, visited))"

text \<open>
  The function has two exits: \<open>return moves\<close> inside the \<open>while\<close> loop and \<open>return 1\<close>
  after it. The loop is modelled with a result that records which exit was taken;
  \<open>calculateMinMoves\<close> then returns the number, as the source does.
\<close>

datatype outcome = Found int | Exhausted

text \<open>
  The loop terminates because every push marks a new sum of the finite interval
  \<open>[-(|target| + 15), |target| + 15]\<close> as visited: the queue length plus the number of in-range
  sums not yet visited goes down by one at every iteration.
\<close>

definition unseen :: "int \<Rightarrow> int set \<Rightarrow> nat" where
  "unseen target visited = card ({- (\<bar>target\<bar> + 15) .. \<bar>target\<bar> + 15} - visited)"

function search :: "int \<Rightarrow> card list \<Rightarrow> (int \<times> int) list \<Rightarrow> int set \<Rightarrow> outcome" where
  "search target availableCards [] visited = Exhausted"
| "search target availableCards ((current, moves) # queue) visited =
     (if current = target then Found moves
      else case expand target current moves availableCards (queue, visited) of
             (queue', visited') \<Rightarrow> search target availableCards queue' visited')"
  by pat_completeness auto
termination
proof (relation "measure (\<lambda>(target, availableCards, queue, visited).
    length queue + unseen target visited)", goal_cases)
  case 1
  show ?case by simp
next
  case (2 target availableCards current mv queue visited queue' visited')
  have pushes: "length q' + unseen target v' = length q + unseen target v"
    if "expand target current mv cards (q, v) = (q', v')" for cards q v q' v'
    using that
  proof (induction cards arbitrary: q v)
    case Nil
    then show ?case by simp
  next
    case (Cons c cards)
    let ?next = "current + delta c"
    show ?case
    proof (cases "?next \<notin> v \<and> \<bar>?next\<bar> \<le> \<bar>target\<bar> + 15 \<and> mv < 8")
      case True
      then have e: "expand target current mv cards
          (q @ [(?next, mv + 1)], insert ?next v) = (q', v')"
        using Cons.prems by (simp add: Let_def)
      have fin: "finite ({- (\<bar>target\<bar> + 15) .. \<bar>target\<bar> + 15} - v)"
        by simp
      have mem: "?next \<in> {- (\<bar>target\<bar> + 15) .. \<bar>target\<bar> + 15} - v"
        using True by auto
      have "{- (\<bar>target\<bar> + 15) .. \<bar>target\<bar> + 15} - insert ?next v
          = ({- (\<bar>target\<bar> + 15) .. \<bar>target\<bar> + 15} - v) - {?next}"
        by auto
      then have "Suc (unseen target (insert ?next v)) = unseen target v"
        unfolding unseen_def using card_Suc_Diff1 [OF fin mem] by simp
      then show ?thesis
        using Cons.IH [OF e] by simp
    next
      case False
      then have "expand target current mv cards (q, v) = (q', v')"
        using Cons.prems by (auto simp add: Let_def)
      then show ?thesis
        using Cons.IH by simp
    qed
  qed
  from 2 have "expand target current mv availableCards (queue, visited) = (queue', visited')"
    by simp
  from pushes [OF this] show ?case
    by simp
qed

definition calculateMinMoves :: "int \<Rightarrow> card list \<Rightarrow> int" where
  "calculateMinMoves target availableCards =
     (case search target availableCards [(0, 0)] {0} of Found moves \<Rightarrow> moves | Exhausted \<Rightarrow> 1)"

subsection \<open>What the solver is measured against\<close>

text \<open>
  A sequence of card applications is a list of cards of the deck (a card may occur several
  times). \<open>total_of\<close> is the sum it reaches from \<open>0\<close>; \<open>bounded_path\<close> says that the cards are
  taken from the deck and that every partial sum, from the empty one to the whole, has
  absolute value at most \<open>|target| + 15\<close>. A \<open>solution\<close> is such a sequence of at most eight
  applications that reaches the target.
\<close>

definition total_of :: "card list \<Rightarrow> int" where
  "total_of cs = sum_list (map delta cs)"

definition bounded_path :: "int \<Rightarrow> card list \<Rightarrow> card list \<Rightarrow> bool" where
  "bounded_path target d cs \<longleftrightarrow>
     set cs \<subseteq> set d \<and> (\<forall>k \<in> {0 .. length cs}. \<bar>total_of (take k cs)\<bar> \<le> \<bar>target\<bar> + 15)"

definition solution :: "int \<Rightarrow> card list \<Rightarrow> card list \<Rightarrow> bool" where
  "solution target d cs \<longleftrightarrow> bounded_path target d cs \<and> total_of cs = target \<and> length cs \<le> 8"

text \<open>\<open>reach target d n y\<close>: the sum \<open>y\<close> is reached by \<open>n\<close> applications that stay in range.\<close>

primrec reach :: "int \<Rightarrow> card list \<Rightarrow> nat \<Rightarrow> int \<Rightarrow> bool" where
  "reach target d 0 y \<longleftrightarrow> y = 0"
| "reach target d (Suc n) y \<longleftrightarrow>
     \<bar>y\<bar> \<le> \<bar>target\<bar> + 15 \<and> (\<exists>c \<in> set d. reach target d n (y - delta c))"

text \<open>
  The loop invariant of the search. \<open>exact\<close>: the move count \<open>m\<close> is the least number of
  in-range applications that reach \<open>x\<close>. \<open>done_with\<close>: \<open>x\<close> has been dequeued, so it is not the
  target and, when it lies fewer than eight applications away, its in-range neighbours have
  all been visited.
\<close>

definition exact :: "int \<Rightarrow> card list \<Rightarrow> int \<Rightarrow> int \<Rightarrow> bool" where
  "exact target d x m \<longleftrightarrow>
     0 \<le> m \<and> reach target d (nat m) x \<and> (\<forall>n. reach target d n x \<longrightarrow> m \<le> int n)"

definition done_with :: "int \<Rightarrow> card list \<Rightarrow> int set \<Rightarrow> int \<Rightarrow> bool" where
  "done_with target d visited x \<longleftrightarrow>
     x \<noteq> target \<and>
     (\<forall>n c. reach target d n x \<and> n < 8 \<and> c \<in> set d \<and> \<bar>x + delta c\<bar> \<le> \<bar>target\<bar> + 15
        \<longrightarrow> x + delta c \<in> visited)"

definition bfs_inv :: "int \<Rightarrow> card list \<Rightarrow> (int \<times> int) list \<Rightarrow> int set \<Rightarrow> bool" where
  "bfs_inv target d queue visited \<longleftrightarrow>
     0 \<in> visited
     \<and> (\<forall>e \<in> set queue. snd e \<le> 8 \<and> fst e \<in> visited \<and> exact target d (fst e) (snd e))
     \<and> sorted (map snd queue)
     \<and> (\<forall>e \<in> set queue. snd e \<le> snd (hd queue) + 1)
     \<and> (queue \<noteq> [] \<longrightarrow>
          (\<forall>n y. reach target d n y \<and> int n \<le> snd (hd queue) \<longrightarrow> y \<in> visited))
     \<and> (\<forall>x \<in> visited. x \<in> fst ` set queue \<or> done_with target d visited x)"

subsection \<open>The deck generator\<close>

text \<open>
  \<^verbatim>\<open>
  const generateDeck = (lvl) => {
    const maxVal = Math.min(Math.floor(lvl / 2) + 3, 5);
    const create = (val, type) => ({ id: Math.random().toString(36), type, value: val, ... });
    // Ensure odd/even mix
    const cards = [
      create(Math.floor(Math.random() * maxVal) + 1, 'antimatter'),
      create(Math.floor(Math.random() * maxVal) + 1, 'matter'),
      create(Math.floor(Math.random() * maxVal) + 1, Math.random() > 0.5 ? 'matter' : 'antimatter')
    ];
    return cards.sort(() => Math.random() - 0.5);
  };
  \<close>
  The random source is made explicit. One call of \<open>generateDeck\<close> consumes the draws of
  \<open>Math.random()\<close> for the three values and for the type of the third card, which are numbers
  in \<open>[0, 1)\<close>, and the draws made by the comparator of \<open>sort\<close>. The comparator ignores its
  arguments, so the arrangement that \<open>sort\<close> leaves is decided by the engine's algorithm and
  those draws alone; \<open>Array.prototype.sort\<close> rearranges the array and neither drops nor
  duplicates an element. Its outcome is therefore modelled as the list \<open>shuffle\<close> of source
  positions: the card at position \<open>j\<close> of the result is the card built at position
  \<open>shuffle ! j\<close>. The draws for the \<open>id\<close> fields do not reach the modelled fields.

  For an integer \<open>lvl\<close>, \<open>Math.floor(lvl / 2)\<close> is \<open>lvl div 2\<close>.
\<close>

record draws =
  value1 :: real
  value2 :: real
  value3 :: real
  type3 :: real
  shuffle :: "nat list"

definition create :: "int \<Rightarrow> kind \<Rightarrow> card" where
  "create v t = \<lparr>type = t, val = v\<rparr>"

definition generateDeck :: "int \<Rightarrow> draws \<Rightarrow> card list" where
  "generateDeck lvl r =
     (let maxVal = min (lvl div 2 + 3) 5;
          cards = [create (\<lfloor>value1 r * of_int maxVal\<rfloor> + 1) Antimatter,
                   create (\<lfloor>value2 r * of_int maxVal\<rfloor> + 1) Matter,
                   create (\<lfloor>value3 r * of_int maxVal\<rfloor> + 1)
                     (if type3 r > 0.5 then Matter else Antimatter)]
      in map (\<lambda>i. cards ! i) (shuffle r))"

text \<open>
  What is assumed of one call's draws: \<open>sort\<close> leaves a rearrangement of the three positions,
  and \<open>Math.random()\<close> returns numbers in \<open>[0, 1)\<close>.
\<close>

definition rearranged :: "draws \<Rightarrow> bool" where
  "rearranged r \<longleftrightarrow> distinct (shuffle r) \<and> set (shuffle r) = {0, 1, 2}"

definition unit_draws :: "draws \<Rightarrow> bool" where
  "unit_draws r \<longleftrightarrow>
     0 \<le> value1 r \<and> value1 r < 1 \<and> 0 \<le> value2 r \<and> value2 r < 1 \<and>
     0 \<le> value3 r \<and> value3 r < 1 \<and> 0 \<le> type3 r \<and> type3 r < 1"

subsection \<open>The game state\<close>

text \<open>
  The state hooks of \<open>App\<close> that the game logic reads or writes. The animation state
  (\<open>fallingCards\<close>, \<open>streamingUnits\<close>, \<open>particles\<close>, \<open>flash\<close>, \<open>selectedCardId\<close>) and the counter
  \<open>puzzlesSolved\<close> are not read by the functions below and are left out. An entry of
  \<open>moveHistory\<close> is \<open>{type, value, name}\<close>, of which \<open>type\<close> and \<open>value\<close> are read: a \<open>card\<close>.
\<close>

datatype screen = Menu | Playing | Victory

record game =
  level :: int
  gameState :: screen
  deck :: "card list"
  leftConstant :: int
  rightValue :: int
  moves :: int
  minMoves :: int
  moveHistory :: "card list"
  undoAvailable :: int
  isAnimating :: bool

subsection \<open>The level initializer\<close>

text \<open>
  \<^verbatim>\<open>
  const initLevel = () => {
    const maxVal = Math.min(5, Math.floor(level / 2) + 3);
    const b = Math.floor(Math.random() * (maxVal * 2)) - maxVal;
    const solution = Math.floor(Math.random() * (maxVal * 2)) - maxVal;
    const c = solution + b;
    let newDeck, optimal;
    let attempts = 0;
    do {
      newDeck = generateDeck(level);
      optimal = calculateMinMoves(-b, newDeck);
      attempts++;
    } while (optimal > 6 && attempts < 20);
    setLeftConstant(b); setRightValue(c); setDeck(newDeck); setMinMoves(optimal);
    setMoves(0); setMoveHistory([]); setUndoAvailable(1);
    ...
    setIsAnimating(false); setSelectedCardId(null); setGameState('playing');
  };
  \<close>
  The random source of one invocation: the draws for \<open>b\<close> and \<open>solution\<close>, and for each call
  of \<open>generateDeck\<close>, numbered from \<open>0\<close>, the draws it consumes.

  \<open>attempt_loop\<close> is the \<open>do ... while\<close> loop, entered with the current value of \<open>attempts\<close>;
  it returns \<open>newDeck\<close>, \<open>optimal\<close> and \<open>attempts\<close> as they are when the loop is left. The
  counter goes up by one with every call of \<open>generateDeck\<close>, so its final value is the number
  of calls.
\<close>

record level_draws =
  draw_b :: real
  draw_solution :: real
  deck_draws :: "nat \<Rightarrow> draws"

function attempt_loop :: "int \<Rightarrow> int \<Rightarrow> (nat \<Rightarrow> draws) \<Rightarrow> nat \<Rightarrow> card list \<times> int \<times> nat" where
  "attempt_loop lvl b rnd attempts =
     (let newDeck = generateDeck lvl (rnd attempts);
          optimal = calculateMinMoves (- b) newDeck
      in if optimal > 6 \<and> attempts + 1 < 20
         then attempt_loop lvl b rnd (attempts + 1)
         else (newDeck, optimal, attempts + 1))"
  by pat_completeness auto
termination
  by (relation "measure (\<lambda>(lvl, b, rnd, attempts). 20 - attempts)") auto

declare attempt_loop.simps [simp del]

definition initial_b :: "level_draws \<Rightarrow> game \<Rightarrow> int" where
  "initial_b r g =
     (let maxVal = min 5 (level g div 2 + 3)
      in \<lfloor>draw_b r * of_int (maxVal * 2)\<rfloor> - maxVal)"

definition initLevel :: "level_draws \<Rightarrow> game \<Rightarrow> game" where
  "initLevel r g =
     (let maxVal = min 5 (level g div 2 + 3);
          b = \<lfloor>draw_b r * of_int (maxVal * 2)\<rfloor> - maxVal;
          solution = \<lfloor>draw_solution r * of_int (maxVal * 2)\<rfloor> - maxVal;
          c = solution + b
      in case attempt_loop (level g) b (deck_draws r) 0 of
           (newDeck, optimal, attempts) \<Rightarrow>
             g\<lparr>leftConstant := b, rightValue := c, deck := newDeck, minMoves := optimal,
               moves := 0, moveHistory := [], undoAvailable := 1, isAnimating := False,
               gameState := Playing\<rparr>)"

text \<open>The number of calls of \<open>generateDeck\<close> that one invocation of \<open>initLevel\<close> makes.\<close>

definition generateDeck_calls :: "level_draws \<Rightarrow> game \<Rightarrow> nat" where
  "generateDeck_calls r g =
     (case attempt_loop (level g) (initial_b r g) (deck_draws r) 0 of
        (newDeck, optimal, attempts) \<Rightarrow> attempts)"

subsection \<open>Applying a card and undoing\<close>

text \<open>
  \<open>handleCardClick\<close> does its work in two parts. At the click:
  \<^verbatim>\<open>
    if (isAnimating) return;
    setIsAnimating(true); ...
    setMoves(m => m + 1);
    setMoveHistory(prev => [...prev, { type: card.type, value: card.value, name: card.name }]);
  \<close>
  and, when the animation timers have run (the callback of \<open>timeout3\<close>), the commit:
  \<^verbatim>\<open>
    const delta = card.type === 'antimatter' ? -card.value : card.value;
    const newLeft = leftConstant + delta;
    setLeftConstant(l => l + delta);
    setRightValue(r => r + delta);
    ... setIsAnimating(false);
    if (newLeft === 0) { ... setTimeout(() => { ...; setGameState('victory'); }, 1000) ... }
  \<close>
  The two parts are two functions on the state. The change of screen that follows a
  balanced equation is a later timer and is not modelled.
\<close>

definition handleCardClick :: "card \<Rightarrow> game \<Rightarrow> game" where
  "handleCardClick c g =
     (if isAnimating g then g
      else g\<lparr>isAnimating := True, moves := moves g + 1,
             moveHistory := moveHistory g @ [\<lparr>type = type c, val = val c\<rparr>]\<rparr>)"

definition handleCardClick_commit :: "card \<Rightarrow> game \<Rightarrow> game" where
  "handleCardClick_commit c g =
     g\<lparr>leftConstant := leftConstant g + delta c, rightValue := rightValue g + delta c,
       isAnimating := False\<rparr>"

text \<open>
  \<^verbatim>\<open>
  const handleUndo = () => {
    if (moveHistory.length === 0 || isAnimating || undoAvailable <= 0) return;
    SoundEngine.effects.undo();
    const last = moveHistory[moveHistory.length - 1];
    const delta = last.type === 'antimatter' ? last.value : -last.value;
    setLeftConstant(l => l + delta);
    setRightValue(r => r + delta);
    setMoves(m => m - 1);
    setUndoAvailable(u => u - 1);
    setMoveHistory(prev => prev.slice(0, -1));
  };
  \<close>
\<close>

definition handleUndo :: "game \<Rightarrow> game" where
  "handleUndo g =
     (if moveHistory g = [] \<or> isAnimating g \<or> undoAvailable g \<le> 0 then g
      else let lst = last (moveHistory g);
               back = (if type lst = Antimatter then val lst else - val lst)
           in g\<lparr>leftConstant := leftConstant g + back, rightValue := rightValue g + back,
                moves := moves g - 1, undoAvailable := undoAvailable g - 1,
                moveHistory := butlast (moveHistory g)\<rparr>)"

text \<open>
  The undo button is enabled under the negation of the guard of \<open>handleUndo\<close>:
  \<^verbatim>\<open>moveHistory.length > 0 && !isAnimating && undoAvailable > 0\<close>.
\<close>

definition undo_enabled :: "game \<Rightarrow> bool" where
  "undo_enabled g \<longleftrightarrow> moveHistory g \<noteq> [] \<and> \<not> isAnimating g \<and> undoAvailable g > 0"

text \<open>
  A puzzle is played as a sequence of events on the state: clicks on cards, commits of
  clicked cards, and clicks on the undo button. \<open>undos\<close> counts the undo clicks of a
  sequence that changed the state.
\<close>

datatype event = Click card | Commit card | Undo

fun step :: "event \<Rightarrow> game \<Rightarrow> game" where
  "step (Click c) g = handleCardClick c g"
| "step (Commit c) g = handleCardClick_commit c g"
| "step Undo g = handleUndo g"

fun run :: "event list \<Rightarrow> game \<Rightarrow> game" where
  "run [] g = g"
| "run (e # es) g = run es (step e g)"

fun undos :: "event list \<Rightarrow> game \<Rightarrow> nat" where
  "undos [] g = 0"
| "undos (e # es) g = (if e = Undo \<and> undo_enabled g then 1 else 0) + undos es (step e g)"

section \<open>Properties\<close>

subsection \<open>Paths and the sums reached in \<open>n\<close> applications\<close>

lemma total_simps [simp]:
  "total_of [] = 0" "total_of (cs @ [c]) = total_of cs + delta c"
  by (simp_all add: total_of_def)

lemma bounded_path_Nil [simp]: "bounded_path target d []"
  by (simp add: bounded_path_def)

lemma bounded_path_snoc:
  "bounded_path target d (cs @ [c]) \<longleftrightarrow>
     bounded_path target d cs \<and> c \<in> set d \<and> \<bar>total_of cs + delta c\<bar> \<le> \<bar>target\<bar> + 15"
proof -
  have "(\<forall>k \<in> {0 .. Suc (length cs)}. \<bar>total_of (take k (cs @ [c]))\<bar> \<le> \<bar>target\<bar> + 15) \<longleftrightarrow>
        (\<forall>k \<in> {0 .. length cs}. \<bar>total_of (take k cs)\<bar> \<le> \<bar>target\<bar> + 15) \<and>
        \<bar>total_of cs + delta c\<bar> \<le> \<bar>target\<bar> + 15"
    by (auto simp add: atLeastAtMostSuc_conv)
  then show ?thesis
    by (auto simp: bounded_path_def)
qed

lemma reach_iff_path:
  "reach target d n y \<longleftrightarrow> (\<exists>cs. length cs = n \<and> bounded_path target d cs \<and> total_of cs = y)"
proof (induction n arbitrary: y)
  case 0
  then show ?case by auto
next
  case (Suc n)
  show ?case
  proof
    assume "reach target d (Suc n) y"
    then obtain c where c: "c \<in> set d" "reach target d n (y - delta c)"
      and y: "\<bar>y\<bar> \<le> \<bar>target\<bar> + 15"
      by auto
    from c(2) Suc.IH obtain cs where cs: "length cs = n" "bounded_path target d cs"
      "total_of cs = y - delta c"
      by blast
    with c(1) y have "length (cs @ [c]) = Suc n \<and> bounded_path target d (cs @ [c])
        \<and> total_of (cs @ [c]) = y"
      by (simp add: bounded_path_snoc)
    then show "\<exists>cs. length cs = Suc n \<and> bounded_path target d cs \<and> total_of cs = y"
      by blast
  next
    assume "\<exists>cs. length cs = Suc n \<and> bounded_path target d cs \<and> total_of cs = y"
    then obtain cs where cs: "length cs = Suc n" "bounded_path target d cs" "total_of cs = y"
      by blast
    then obtain bs c where bs: "cs = bs @ [c]"
      by (cases cs rule: rev_cases) auto
    with cs have "length bs = n" "bounded_path target d bs" "c \<in> set d"
      "\<bar>y\<bar> \<le> \<bar>target\<bar> + 15" "total_of bs = y - delta c"
      by (auto simp: bounded_path_snoc)
    then show "reach target d (Suc n) y"
      using Suc.IH by auto
  qed
qed

lemma expand_spec:
  "expand target current mv cards (queue, visited) = (queue', visited') \<Longrightarrow>
   \<exists>new. queue' = queue @ new \<and> (\<forall>e \<in> set new. snd e = mv + 1)
     \<and> fst ` set new = visited' - visited
     \<and> visited' = visited \<union> (if mv < 8
          then {y. \<exists>c \<in> set cards. y = current + delta c \<and> \<bar>y\<bar> \<le> \<bar>target\<bar> + 15} else {})"
proof (induction cards arbitrary: queue visited)
  case Nil
  then show ?case by auto
next
  case (Cons c cards)
  let ?next = "current + delta c"
  show ?case
  proof (cases "?next \<notin> visited \<and> \<bar>?next\<bar> \<le> \<bar>target\<bar> + 15 \<and> mv < 8")
    case True
    then have "expand target current mv cards
        (queue @ [(?next, mv + 1)], insert ?next visited) = (queue', visited')"
      using Cons.prems by (simp add: Let_def)
    from Cons.IH [OF this] obtain new where new: "queue' = (queue @ [(?next, mv + 1)]) @ new"
      "\<forall>e \<in> set new. snd e = mv + 1" "fst ` set new = visited' - insert ?next visited"
      "visited' = insert ?next visited \<union> {y. \<exists>c \<in> set cards. y = current + delta c
          \<and> \<bar>y\<bar> \<le> \<bar>target\<bar> + 15}"
      using True by auto
    let ?new = "(?next, mv + 1) # new"
    have "queue' = queue @ ?new" using new(1) by simp
    moreover have "\<forall>e \<in> set ?new. snd e = mv + 1" using new(2) by simp
    moreover have "fst ` set ?new = visited' - visited"
      using new(3,4) True by auto
    moreover have "visited' = visited \<union> (if mv < 8
          then {y. \<exists>c \<in> set (c # cards). y = current + delta c \<and> \<bar>y\<bar> \<le> \<bar>target\<bar> + 15} else {})"
      using new(4) True by auto
    ultimately show ?thesis by blast
  next
    case False
    then have "expand target current mv cards (queue, visited) = (queue', visited')"
      using Cons.prems by (auto simp add: Let_def)
    from Cons.IH [OF this] obtain new where new: "queue' = queue @ new"
      "\<forall>e \<in> set new. snd e = mv + 1" "fst ` set new = visited' - visited"
      "visited' = visited \<union> (if mv < 8
          then {y. \<exists>c \<in> set cards. y = current + delta c \<and> \<bar>y\<bar> \<le> \<bar>target\<bar> + 15} else {})"
      by blast
    have "visited' = visited \<union> (if mv < 8
          then {y. \<exists>c \<in> set (c # cards). y = current + delta c \<and> \<bar>y\<bar> \<le> \<bar>target\<bar> + 15} else {})"
      using new(4) False by auto
    with new(1,2,3) show ?thesis by blast
  qed
qed

subsection \<open>The search loop keeps its invariant\<close>

lemma bfs_inv_init: "bfs_inv target d [(0, 0)] {0}"
  by (simp add: bfs_inv_def exact_def)

lemma bfs_inv_step:
  assumes inv: "bfs_inv target d ((x, m) # q) V"
    and ne: "x \<noteq> target"
    and ex: "expand target x m d (q, V) = (q', V')"
  shows "bfs_inv target d q' V'"
proof -
  let ?N = "{y. \<exists>c \<in> set d. y = x + delta c \<and> \<bar>y\<bar> \<le> \<bar>target\<bar> + 15}"
  from expand_spec [OF ex] obtain new where q': "q' = q @ new"
    and lvl: "\<forall>e \<in> set new. snd e = m + 1"
    and fresh: "fst ` set new = V' - V"
    and V': "V' = V \<union> (if m < 8 then ?N else {})"
    by blast
  have sub: "V \<subseteq> V'" using V' by auto
  from inv have zero: "0 \<in> V"
    and ents: "\<forall>e \<in> set ((x, m) # q). snd e \<le> 8 \<and> fst e \<in> V \<and> exact target d (fst e) (snd e)"
    and srt: "sorted (map snd ((x, m) # q))"
    and top: "\<forall>e \<in> set ((x, m) # q). snd e \<le> m + 1"
    and below: "\<forall>n y. reach target d n y \<and> int n \<le> m \<longrightarrow> y \<in> V"
    and cls: "\<forall>z \<in> V. z \<in> fst ` set ((x, m) # q) \<or> done_with target d V z"
    by (simp_all add: bfs_inv_def)
  from ents have xm: "m \<le> 8" "x \<in> V" "exact target d x m" by simp_all
  then have m0: "0 \<le> m" and rx: "reach target d (nat m) x"
    and minx: "\<And>n. reach target d n x \<Longrightarrow> m \<le> int n"
    by (simp_all add: exact_def)
  have new_lt: "m < 8" if "new \<noteq> []"
  proof (rule ccontr)
    assume "\<not> m < 8"
    then have "V' = V" using V' by simp
    then have "set new = {}" using fresh by simp
    with that show False by simp
  qed
  have lo: "m \<le> snd e" if "e \<in> set q'" for e
  proof -
    from that q' consider "e \<in> set q" | "e \<in> set new" by auto
    then show ?thesis
    proof cases
      case 1 then show ?thesis using srt by auto
    next
      case 2 then show ?thesis using lvl by auto
    qed
  qed
  have hi: "snd e \<le> m + 1" if "e \<in> set q'" for e
    using that q' top lvl by auto
  have hd_in: "hd q' \<in> set q'" if "q' \<noteq> []"
    using that by simp
  \<comment> \<open>entries\<close>
  have p2: "\<forall>e \<in> set q'. snd e \<le> 8 \<and> fst e \<in> V' \<and> exact target d (fst e) (snd e)"
  proof
    fix e assume "e \<in> set q'"
    with q' consider "e \<in> set q" | "e \<in> set new" by auto
    then show "snd e \<le> 8 \<and> fst e \<in> V' \<and> exact target d (fst e) (snd e)"
    proof cases
      case 1 then show ?thesis using ents sub by auto
    next
      case 2
      then have "new \<noteq> []" by auto
      then have lt: "m < 8" by (rule new_lt)
      from 2 lvl have k: "snd e = m + 1" by simp
      from 2 fresh have y: "fst e \<in> V'" "fst e \<notin> V" by auto
      with V' lt obtain c where c: "c \<in> set d" "fst e = x + delta c"
        "\<bar>fst e\<bar> \<le> \<bar>target\<bar> + 15" by auto
      have "nat (m + 1) = Suc (nat m)" using m0 by simp
      moreover have "reach target d (nat m) (fst e - delta c)"
        using c(2) rx by simp
      ultimately have r: "reach target d (nat (m + 1)) (fst e)"
        using c(1,3) by auto
      have "m + 1 \<le> int n" if "reach target d n (fst e)" for n
      proof (rule ccontr)
        assume "\<not> m + 1 \<le> int n"
        then have "int n \<le> m" by simp
        with that below have "fst e \<in> V" by blast
        with y show False by simp
      qed
      with r m0 have "exact target d (fst e) (m + 1)"
        by (simp add: exact_def)
      with k lt y show ?thesis by simp
    qed
  qed
  \<comment> \<open>order\<close>
  have p3: "sorted (map snd q')"
  proof -
    have "sorted (map snd q)" using srt by simp
    moreover have "sorted (map snd new)"
      using lvl by (induction new) auto
    moreover have "\<forall>a \<in> set (map snd q). \<forall>b \<in> set (map snd new). a \<le> b"
      using top lvl by auto
    ultimately show ?thesis
      unfolding q' by (simp add: sorted_append)
  qed
  have p4: "\<forall>e \<in> set q'. snd e \<le> snd (hd q') + 1"
  proof
    fix e assume e: "e \<in> set q'"
    then have "q' \<noteq> []" by auto
    from lo [OF hd_in [OF this]] hi [OF e] show "snd e \<le> snd (hd q') + 1" by simp
  qed
  \<comment> \<open>every sum at most as far as the head has been seen\<close>
  have p5: "q' \<noteq> [] \<longrightarrow> (\<forall>n y. reach target d n y \<and> int n \<le> snd (hd q') \<longrightarrow> y \<in> V')"
  proof (intro impI allI)
    fix n y
    assume ne': "q' \<noteq> []" and ry: "reach target d n y \<and> int n \<le> snd (hd q')"
    let ?k = "snd (hd q')"
    have hk: "?k \<le> m + 1" "?k \<le> 8" using hi [OF hd_in [OF ne']] p2 hd_in [OF ne'] by auto
    show "y \<in> V'"
    proof (cases "int n \<le> m")
      case True
      with ry below sub show ?thesis by blast
    next
      case False
      with ry hk have n: "int n = m + 1" and k: "?k = m + 1" by auto
      then have lt: "m < 8" using hk by simp
      from n m0 have "n = Suc (nat m)" by simp
      with ry obtain c where c: "c \<in> set d" "reach target d (nat m) (y - delta c)"
        and yr: "\<bar>y\<bar> \<le> \<bar>target\<bar> + 15" by auto
      let ?z = "y - delta c"
      have "int (nat m) \<le> m" using m0 by simp
      with below c(2) have zV: "?z \<in> V" by blast
      have all_next: "snd e = m + 1" if "e \<in> set q" for e
      proof -
        have "e \<in> set q'" using that q' by simp
        then have "snd e \<le> m + 1" by (rule hi)
        moreover have "?k \<le> snd e"
        proof -
          from that obtain a q0 where "q = a # q0" by (cases q) auto
          then have "hd q' = a" "sorted (map snd (a # q0))" "e \<in> set (a # q0)"
            using q' srt that by auto
          then show ?thesis by auto
        qed
        ultimately show ?thesis using k by simp
      qed
      from cls zV consider "?z = x" | "?z \<in> fst ` set q" | "done_with target d V ?z"
        by auto
      then show ?thesis
      proof cases
        case 1
        then have "y = x + delta c" by simp
        with c(1) yr lt V' show ?thesis by auto
      next
        case 2
        then obtain e where e: "e \<in> set q" "fst e = ?z" by auto
        with ents have "exact target d ?z (snd e)" by auto
        with all_next [OF e(1)] have "exact target d ?z (m + 1)" by simp
        then have "\<forall>n. reach target d n ?z \<longrightarrow> m + 1 \<le> int n"
          unfolding exact_def by blast
        with c(2) have "m + 1 \<le> int (nat m)" by blast
        with m0 show ?thesis by simp
      next
        case 3
        have "nat m < 8" using lt m0 by simp
        moreover have "\<bar>?z + delta c\<bar> \<le> \<bar>target\<bar> + 15" using yr by simp
        ultimately have "?z + delta c \<in> V"
          using 3 c unfolding done_with_def by blast
        with sub show ?thesis by auto
      qed
    qed
  qed
  \<comment> \<open>every seen sum is queued or done with\<close>
  have mono: "done_with target d V' z" if "done_with target d V z" for z
    using that sub unfolding done_with_def by blast
  have p6: "\<forall>z \<in> V'. z \<in> fst ` set q' \<or> done_with target d V' z"
  proof
    fix z assume z: "z \<in> V'"
    show "z \<in> fst ` set q' \<or> done_with target d V' z"
    proof (cases "z \<in> V")
      case False
      with z fresh have "z \<in> fst ` set new" by simp
      then show ?thesis using q' by auto
    next
      case True
      with cls consider "z = x" | "z \<in> fst ` set q" | "done_with target d V z"
        by auto
      then show ?thesis
      proof cases
        case 1
        have "x + delta c \<in> V'"
          if "reach target d n x" "n < 8" "c \<in> set d" "\<bar>x + delta c\<bar> \<le> \<bar>target\<bar> + 15"
          for n c
        proof -
          from minx [OF that(1)] that(2) have "m < 8" by simp
          with V' that(3,4) show ?thesis by auto
        qed
        with ne 1 have "done_with target d V' z"
          unfolding done_with_def by blast
        then show ?thesis ..
      next
        case 2 then show ?thesis using q' by auto
      next
        case 3 then show ?thesis using mono by blast
      qed
    qed
  qed
  from zero sub have p1: "0 \<in> V'" by auto
  from p1 p2 p3 p4 p5 p6 show ?thesis
    unfolding bfs_inv_def by blast
qed

lemma seen_all:
  assumes zero: "0 \<in> V" and cls: "\<forall>z \<in> V. done_with target d V z"
  shows "n \<le> 8 \<Longrightarrow> reach target d n y \<Longrightarrow> y \<in> V"
proof (induction n arbitrary: y)
  case 0
  then show ?case using zero by simp
next
  case (Suc n)
  from Suc.prems obtain c where c: "c \<in> set d" "reach target d n (y - delta c)"
    and yr: "\<bar>y\<bar> \<le> \<bar>target\<bar> + 15" by auto
  from Suc.IH [OF _ c(2)] Suc.prems(1) have "y - delta c \<in> V" by simp
  with cls have "done_with target d V (y - delta c)" by blast
  moreover have "n < 8" using Suc.prems(1) by simp
  moreover have "\<bar>(y - delta c) + delta c\<bar> \<le> \<bar>target\<bar> + 15" using yr by simp
  ultimately have "(y - delta c) + delta c \<in> V"
    using c unfolding done_with_def by blast
  then show ?case by simp
qed

lemma search_correct:
  "bfs_inv target d queue visited \<Longrightarrow>
   (case search target d queue visited of
      Found m \<Rightarrow> m \<le> 8 \<and> exact target d target m
    | Exhausted \<Rightarrow> \<forall>n \<le> 8. \<not> reach target d n target)"
proof (induction target d queue visited rule: search.induct)
  case (1 target availableCards visited)
  then have zero: "0 \<in> visited" and cls: "\<forall>z \<in> visited. done_with target availableCards visited z"
    by (simp_all add: bfs_inv_def)
  have "\<not> reach target availableCards n target" if "n \<le> 8" for n
  proof
    assume "reach target availableCards n target"
    from seen_all [OF zero cls that this] cls
    have "done_with target availableCards visited target" by blast
    then show False by (simp add: done_with_def)
  qed
  then show ?case by simp
next
  case (2 target availableCards current mv queue visited)
  show ?case
  proof (cases "current = target")
    case True
    with "2.prems" show ?thesis by (simp add: bfs_inv_def)
  next
    case False
    obtain queue' visited' where
      e: "expand target current mv availableCards (queue, visited) = (queue', visited')"
      by (cases "expand target current mv availableCards (queue, visited)")
    from bfs_inv_step [OF "2.prems" False e]
    have "bfs_inv target availableCards queue' visited'" .
    from "2.IH" [OF False e [symmetric] this] False e show ?thesis
      by simp
  qed
qed

lemma search_start:
  "(case search target d [(0, 0)] {0} of
      Found m \<Rightarrow> m \<le> 8 \<and> exact target d target m
    | Exhausted \<Rightarrow> \<forall>n \<le> 8. \<not> reach target d n target)"
  by (rule search_correct [OF bfs_inv_init])

lemma solution_reach: "solution target d cs \<Longrightarrow> reach target d (length cs) target"
  unfolding solution_def reach_iff_path by blast

lemma reach_solution:
  "reach target d n target \<Longrightarrow> n \<le> 8 \<Longrightarrow> \<exists>cs. solution target d cs \<and> length cs = n"
  unfolding solution_def reach_iff_path by blast

lemma found_exact:
  assumes "search target d [(0, 0)] {0} = Found m"
  shows "0 \<le> m" "m \<le> 8" "reach target d (nat m) target"
    "\<And>n. reach target d n target \<Longrightarrow> m \<le> int n"
  using search_start [of target d] assms by (simp_all add: exact_def)

lemma exhausted_unreachable:
  assumes "search target d [(0, 0)] {0} = Exhausted"
  shows "\<not> solution target d cs"
proof
  assume sol: "solution target d cs"
  then have "length cs \<le> 8" by (simp add: solution_def)
  moreover from assms search_start [of target d]
  have "\<forall>n \<le> 8. \<not> reach target d n target" by simp
  ultimately show False using solution_reach [OF sol] by blast
qed

lemma one_move_found:
  assumes c: "c \<in> set d" and nz: "delta c \<noteq> 0"
  shows "search (delta c) d [(0, 0)] {0} = Found 1"
proof -
  have r: "reach (delta c) d (Suc 0) (delta c)"
    using c by auto
  show ?thesis
  proof (cases "search (delta c) d [(0, 0)] {0}")
    case Exhausted
    with search_start [of "delta c" d] have "\<forall>n \<le> 8. \<not> reach (delta c) d n (delta c)"
      by (simp del: search.simps)
    moreover have "Suc 0 \<le> 8" by simp
    ultimately have "\<not> reach (delta c) d (Suc 0) (delta c)" by blast
    with r show ?thesis by blast
  next
    case (Found m)
    from found_exact(4) [OF Found r] have "m \<le> 1" by simp
    moreover have "m \<noteq> 0"
    proof
      assume "m = 0"
      with found_exact(3) [OF Found] nz show False by simp
    qed
    ultimately have "m = 1" using found_exact(1) [OF Found] by simp
    with Found show ?thesis by simp
  qed
qed

subsection \<open>The minimum-move solver: claims\<close>

text \<open>
  C1. For every target \<open>t\<close> and every deck \<open>d\<close> (of three cards, or of any other length): if
  \<open>t\<close> is reached from \<open>0\<close> by some sequence of at most eight card applications, the cards
  taken from \<open>d\<close> with repetition allowed, whose partial sums all have absolute value at most
  \<open>|t| + 15\<close>, then \<open>calculateMinMoves t d\<close> is the minimum length of such a sequence: some
  such sequence has that length, and none is shorter.
\<close>

theorem calculateMinMoves_minimum:
  assumes "solution t d cs"
  shows "(\<exists>best. solution t d best \<and> calculateMinMoves t d = int (length best)) \<and>
         (\<forall>cs'. solution t d cs' \<longrightarrow> calculateMinMoves t d \<le> int (length cs'))"
proof (cases "search t d [(0, 0)] {0}")
  case Exhausted
  with exhausted_unreachable assms show ?thesis by blast
next
  case (Found m)
  then have res: "calculateMinMoves t d = m"
    by (simp add: calculateMinMoves_def)
  have "nat m \<le> 8" using found_exact(2) [OF Found] by simp
  from reach_solution [OF found_exact(3) [OF Found] this]
  obtain best where "solution t d best" "length best = nat m" by blast
  with found_exact(1) [OF Found] res
  have "solution t d best \<and> calculateMinMoves t d = int (length best)" by simp
  moreover have "calculateMinMoves t d \<le> int (length cs')" if "solution t d cs'" for cs'
    using found_exact(4) [OF Found solution_reach [OF that]] res by simp
  ultimately show ?thesis by blast
qed

theorem calculateMinMoves_minimum_witness:
  "solution 5 [\<lparr>type = Antimatter, val = 1\<rparr>, \<lparr>type = Matter, val = 2\<rparr>, \<lparr>type = Matter, val = 3\<rparr>]
     [\<lparr>type = Matter, val = 2\<rparr>, \<lparr>type = Matter, val = 3\<rparr>] \<and>
   calculateMinMoves 5
     [\<lparr>type = Antimatter, val = 1\<rparr>, \<lparr>type = Matter, val = 2\<rparr>, \<lparr>type = Matter, val = 3\<rparr>] \<le> 2"
proof -
  let ?d = "[\<lparr>type = Antimatter, val = 1\<rparr>, \<lparr>type = Matter, val = 2\<rparr>, \<lparr>type = Matter, val = 3\<rparr>]"
  let ?cs = "[\<lparr>type = Matter, val = 2\<rparr>, \<lparr>type = Matter, val = 3\<rparr>]"
  have h: "solution 5 ?d ?cs"
    by (simp add: solution_def bounded_path_def total_of_def delta_def atLeastAtMostSuc_conv)
  from calculateMinMoves_minimum [OF h] have "calculateMinMoves 5 ?d \<le> int (length ?cs)"
    using h by blast
  with h show ?thesis by simp
qed

text \<open>
  C2. For every target \<open>t\<close> and deck \<open>d\<close>: if the queue empties without a dequeued sum equal
  to \<open>t\<close> (the loop is left through its end; no sequence of at most eight in-range
  applications reaches \<open>t\<close>), then \<open>calculateMinMoves t d\<close> is \<open>1\<close>. That is also the result
  for a target one application away: for every card of the deck with a non-zero delta, the
  search for that delta finds it at move count \<open>1\<close> and the two results are the same number.
\<close>

theorem exhausted_returns_one:
  assumes "search t d [(0, 0)] {0} = Exhausted"
  shows "calculateMinMoves t d = 1 \<and> (\<forall>cs. \<not> solution t d cs) \<and>
         (\<forall>c \<in> set d. delta c \<noteq> 0 \<longrightarrow>
            search (delta c) d [(0, 0)] {0} = Found 1 \<and>
            calculateMinMoves (delta c) d = calculateMinMoves t d)"
proof -
  from assms have one: "calculateMinMoves t d = 1"
    by (simp add: calculateMinMoves_def)
  have "search (delta c) d [(0, 0)] {0} = Found 1 \<and>
        calculateMinMoves (delta c) d = calculateMinMoves t d"
    if "c \<in> set d" "delta c \<noteq> 0" for c
    using one_move_found [OF that] one by (simp add: calculateMinMoves_def)
  with one exhausted_unreachable [OF assms] show ?thesis by blast
qed

theorem exhausted_returns_one_witness:
  "search 7 [\<lparr>type = Matter, val = 5\<rparr>] [(0, 0)] {0} = Exhausted \<and>
   calculateMinMoves 7 [\<lparr>type = Matter, val = 5\<rparr>] = 1 \<and>
   search 5 [\<lparr>type = Matter, val = 5\<rparr>] [(0, 0)] {0} = Found 1 \<and>
   calculateMinMoves 5 [\<lparr>type = Matter, val = 5\<rparr>] = calculateMinMoves 7 [\<lparr>type = Matter, val = 5\<rparr>]"
proof -
  let ?c = "\<lparr>type = Matter, val = 5\<rparr>"
  have h: "search 7 [?c] [(0, 0)] {0} = Exhausted"
    by (simp add: delta_def Let_def)
  have d: "delta ?c = 5" by (simp add: delta_def)
  from exhausted_returns_one [OF h] have "calculateMinMoves 7 [?c] = 1"
    and "search (delta ?c) [?c] [(0, 0)] {0} = Found 1 \<and>
      calculateMinMoves (delta ?c) [?c] = calculateMinMoves 7 [?c]"
    using d by simp_all
  with h d show ?thesis by simp
qed

text \<open>
  C6. For every target \<open>t\<close> and deck \<open>d\<close>, \<open>calculateMinMoves t d \<ge> 0\<close>; and for every deck,
  the search for the target \<open>0\<close> stops at the initial entry (sum \<open>0\<close>, \<open>0\<close> moves), so that
  \<open>calculateMinMoves 0 d = 0\<close>.
\<close>

theorem calculateMinMoves_nonneg:
  "0 \<le> calculateMinMoves t d \<and> search 0 d [(0, 0)] {0} = Found 0 \<and> calculateMinMoves 0 d = 0"
proof -
  have "0 \<le> calculateMinMoves t d"
  proof (cases "search t d [(0, 0)] {0}")
    case Exhausted
    then show ?thesis by (simp add: calculateMinMoves_def)
  next
    case (Found m)
    with found_exact(1) [OF Found] show ?thesis by (simp add: calculateMinMoves_def)
  qed
  then show ?thesis by (simp add: calculateMinMoves_def)
qed

text \<open>
  C10. For every target \<open>t\<close> and deck \<open>d\<close>, \<open>calculateMinMoves t d\<close> lies in \<open>[0, 8]\<close>: a move
  count found by the search is at most \<open>8\<close>, and so is the value \<open>1\<close> returned after the loop.
\<close>

theorem calculateMinMoves_at_most_8:
  "0 \<le> calculateMinMoves t d \<and> calculateMinMoves t d \<le> 8"
proof (cases "search t d [(0, 0)] {0}")
  case Exhausted
  then show ?thesis by (simp add: calculateMinMoves_def)
next
  case (Found m)
  with found_exact(1,2) [OF Found] show ?thesis by (simp add: calculateMinMoves_def)
qed

lemma fives_reach:
  assumes "\<forall>c \<in> set d. val c = 5"
  shows "reach target d n y \<Longrightarrow> 5 dvd y"
proof (induction n arbitrary: y)
  case 0
  then show ?case by simp
next
  case (Suc n)
  then obtain c where c: "c \<in> set d" "reach target d n (y - delta c)" by auto
  from Suc.IH [OF c(2)] have "5 dvd y - delta c" .
  moreover from assms c(1) have "5 dvd delta c"
    by (simp add: delta_def)
  ultimately have "5 dvd (y - delta c) + delta c"
    by (rule dvd_add)
  then show ?case by simp
qed

text \<open>
  C3 (as amended). Given a deck whose cards all have magnitude \<open>5\<close> and the target \<open>7\<close>, the
  search is exhausted and \<open>calculateMinMoves\<close> returns the fallback \<open>1\<close>, the number it also
  returns for a target one application away: the result does not tell the unreachable
  target apart.
\<close>

theorem fives_never_reach_seven:
  assumes "\<forall>c \<in> set d. val c = 5"
  shows "search 7 d [(0, 0)] {0} = Exhausted \<and> calculateMinMoves 7 d = 1"
proof (cases "search 7 d [(0, 0)] {0}")
  case Exhausted
  then show ?thesis by (simp add: calculateMinMoves_def)
next
  case (Found m)
  from fives_reach [OF assms found_exact(3) [OF Found]] have "(5::int) dvd 7" .
  then show ?thesis by simp
qed

theorem fives_never_reach_seven_witness:
  "val \<lparr>type = Antimatter, val = 5\<rparr> = 5 \<and> val \<lparr>type = Matter, val = 5\<rparr> = 5 \<and>
   search 7 [\<lparr>type = Antimatter, val = 5\<rparr>, \<lparr>type = Matter, val = 5\<rparr>, \<lparr>type = Matter, val = 5\<rparr>]
     [(0, 0)] {0} = Exhausted \<and>
   calculateMinMoves 7
     [\<lparr>type = Antimatter, val = 5\<rparr>, \<lparr>type = Matter, val = 5\<rparr>, \<lparr>type = Matter, val = 5\<rparr>] = 1"
proof -
  let ?d = "[\<lparr>type = Antimatter, val = 5\<rparr>, \<lparr>type = Matter, val = 5\<rparr>, \<lparr>type = Matter, val = 5\<rparr>]"
  have h: "\<forall>c \<in> set ?d. val c = 5" by simp
  from fives_never_reach_seven [OF h] show ?thesis by simp
qed

text \<open>
  C3 as stated fails: for the deck whose only card is a Matter card of magnitude \<open>5\<close>, the
  result for the unreachable target \<open>7\<close> is \<open>1\<close>, and \<open>1\<close> is the genuine move count of the
  target \<open>5\<close>, which that card reaches in one application.
\<close>

theorem unreachable_reported_as_one:
  "search 7 [\<lparr>type = Matter, val = 5\<rparr>] [(0, 0)] {0} = Exhausted \<and>
   calculateMinMoves 7 [\<lparr>type = Matter, val = 5\<rparr>] = 1 \<and>
   solution 5 [\<lparr>type = Matter, val = 5\<rparr>] [\<lparr>type = Matter, val = 5\<rparr>] \<and>
   calculateMinMoves 5 [\<lparr>type = Matter, val = 5\<rparr>] = 1"
  by (simp add: calculateMinMoves_def solution_def bounded_path_def total_of_def delta_def
      Let_def atLeastAtMostSuc_conv)

subsection \<open>The deck generator: claims\<close>

lemma draw_range:
  fixes v :: real and m :: int
  assumes "0 \<le> v" "v < 1" "1 \<le> m"
  shows "1 \<le> \<lfloor>v * of_int m\<rfloor> + 1 \<and> \<lfloor>v * of_int m\<rfloor> + 1 \<le> m"
proof -
  have pos: "(0::real) < of_int m" using assms(3) by simp
  have "0 \<le> v * of_int m" using assms(1) pos by simp
  then have lo: "0 \<le> \<lfloor>v * of_int m\<rfloor>" by simp
  have "v * of_int m < 1 * of_int m"
    using assms(2) pos by (rule mult_strict_right_mono)
  then have "\<lfloor>v * of_int m\<rfloor> < m" by (simp add: floor_less_iff)
  with lo show ?thesis by simp
qed

lemma generateDeck_set:
  assumes "rearranged r"
  shows "length (generateDeck lvl r) = 3"
    and "set (generateDeck lvl r) =
      {create (\<lfloor>value1 r * of_int (min (lvl div 2 + 3) 5)\<rfloor> + 1) Antimatter,
       create (\<lfloor>value2 r * of_int (min (lvl div 2 + 3) 5)\<rfloor> + 1) Matter,
       create (\<lfloor>value3 r * of_int (min (lvl div 2 + 3) 5)\<rfloor> + 1)
         (if type3 r > 0.5 then Matter else Antimatter)}"
proof -
  from assms have d: "distinct (shuffle r)" and s: "set (shuffle r) = {0, 1, 2}"
    by (simp_all add: rearranged_def)
  have "length (shuffle r) = card (set (shuffle r))"
    using d by (simp add: distinct_card)
  also have "\<dots> = 3" by (simp add: s)
  finally show "length (generateDeck lvl r) = 3"
    by (simp add: generateDeck_def Let_def)
  show "set (generateDeck lvl r) =
      {create (\<lfloor>value1 r * of_int (min (lvl div 2 + 3) 5)\<rfloor> + 1) Antimatter,
       create (\<lfloor>value2 r * of_int (min (lvl div 2 + 3) 5)\<rfloor> + 1) Matter,
       create (\<lfloor>value3 r * of_int (min (lvl div 2 + 3) 5)\<rfloor> + 1)
         (if type3 r > 0.5 then Matter else Antimatter)}"
    by (simp add: generateDeck_def Let_def s)
qed

text \<open>
  C4. For every level \<open>lvl \<ge> 1\<close> (and all draws of the random source), \<open>generateDeck lvl\<close>
  returns a deck of exactly three cards, and the magnitude of every card lies in
  \<open>[1, min(floor(lvl/2) + 3, 5)]\<close>.
\<close>

theorem generateDeck_magnitudes:
  assumes "1 \<le> lvl" "unit_draws r" "rearranged r"
  shows "length (generateDeck lvl r) = 3 \<and>
         (\<forall>c \<in> set (generateDeck lvl r). 1 \<le> val c \<and> val c \<le> min (lvl div 2 + 3) 5)"
proof -
  let ?m = "min (lvl div 2 + 3) 5"
  have m: "1 \<le> ?m" using assms(1) by simp
  from assms(2) have
    "1 \<le> \<lfloor>value1 r * of_int ?m\<rfloor> + 1 \<and> \<lfloor>value1 r * of_int ?m\<rfloor> + 1 \<le> ?m"
    "1 \<le> \<lfloor>value2 r * of_int ?m\<rfloor> + 1 \<and> \<lfloor>value2 r * of_int ?m\<rfloor> + 1 \<le> ?m"
    "1 \<le> \<lfloor>value3 r * of_int ?m\<rfloor> + 1 \<and> \<lfloor>value3 r * of_int ?m\<rfloor> + 1 \<le> ?m"
    unfolding unit_draws_def using draw_range [OF _ _ m] by blast+
  then have "\<forall>c \<in> set (generateDeck lvl r). 1 \<le> val c \<and> val c \<le> ?m"
    unfolding generateDeck_set(2) [OF assms(3)] by (simp add: create_def)
  with generateDeck_set(1) [OF assms(3)] show ?thesis by simp
qed

theorem generateDeck_magnitudes_witness:
  "(1::int) \<le> 1 \<and>
   unit_draws \<lparr>value1 = 1/2, value2 = 0, value3 = 9/10, type3 = 1/4, shuffle = [2, 0, 1]\<rparr> \<and>
   rearranged \<lparr>value1 = 1/2, value2 = 0, value3 = 9/10, type3 = 1/4, shuffle = [2, 0, 1]\<rparr> \<and>
   generateDeck 1 \<lparr>value1 = 1/2, value2 = 0, value3 = 9/10, type3 = 1/4, shuffle = [2, 0, 1]\<rparr>
     = [\<lparr>type = Antimatter, val = 3\<rparr>, \<lparr>type = Antimatter, val = 2\<rparr>, \<lparr>type = Matter, val = 1\<rparr>] \<and>
   length (generateDeck 1
     \<lparr>value1 = 1/2, value2 = 0, value3 = 9/10, type3 = 1/4, shuffle = [2, 0, 1]\<rparr>) = 3"
proof -
  let ?r = "\<lparr>value1 = 1/2, value2 = 0, value3 = 9/10, type3 = 1/4, shuffle = [2, 0, 1]\<rparr> :: draws"
  have h1: "(1::int) \<le> 1" by simp
  have h2: "unit_draws ?r" by (simp add: unit_draws_def)
  have h3: "rearranged ?r" by (auto simp add: rearranged_def)
  have "generateDeck 1 ?r
     = [\<lparr>type = Antimatter, val = 3\<rparr>, \<lparr>type = Antimatter, val = 2\<rparr>, \<lparr>type = Matter, val = 1\<rparr>]"
    by (simp add: generateDeck_def create_def Let_def)
  with generateDeck_magnitudes [OF h1 h2 h3] h1 h2 h3 show ?thesis by simp
qed

text \<open>
  C5. For every level and every outcome of the random source, the deck returned by
  \<open>generateDeck\<close> has three cards, among them at least one Matter card and at least one
  Antimatter card: \<open>sort\<close> rearranges the three cards built, the first of which is an
  Antimatter card and the second a Matter card.
\<close>

theorem generateDeck_both_kinds:
  assumes "rearranged r"
  shows "length (generateDeck lvl r) = 3 \<and>
         (\<exists>c \<in> set (generateDeck lvl r). type c = Matter) \<and>
         (\<exists>c \<in> set (generateDeck lvl r). type c = Antimatter)"
proof -
  let ?m = "min (lvl div 2 + 3) 5"
  let ?first = "create (\<lfloor>value1 r * of_int ?m\<rfloor> + 1) Antimatter"
  let ?second = "create (\<lfloor>value2 r * of_int ?m\<rfloor> + 1) Matter"
  have "?first \<in> set (generateDeck lvl r)" "?second \<in> set (generateDeck lvl r)"
    unfolding generateDeck_set(2) [OF assms] by simp_all
  moreover have "type ?first = Antimatter" "type ?second = Matter"
    by (simp_all add: create_def)
  ultimately show ?thesis
    using generateDeck_set(1) [OF assms] by blast
qed

theorem generateDeck_both_kinds_witness:
  "rearranged \<lparr>value1 = 1/2, value2 = 0, value3 = 9/10, type3 = 3/4, shuffle = [1, 2, 0]\<rparr> \<and>
   (\<exists>c \<in> set (generateDeck 7
      \<lparr>value1 = 1/2, value2 = 0, value3 = 9/10, type3 = 3/4, shuffle = [1, 2, 0]\<rparr>).
      type c = Matter) \<and>
   (\<exists>c \<in> set (generateDeck 7
      \<lparr>value1 = 1/2, value2 = 0, value3 = 9/10, type3 = 3/4, shuffle = [1, 2, 0]\<rparr>).
      type c = Antimatter)"
proof -
  let ?r = "\<lparr>value1 = 1/2, value2 = 0, value3 = 9/10, type3 = 3/4, shuffle = [1, 2, 0]\<rparr> :: draws"
  have h: "rearranged ?r" by (auto simp add: rearranged_def)
  from generateDeck_both_kinds [OF h, of 7] h show ?thesis by blast
qed

subsection \<open>The level initializer: claims\<close>

lemma attempt_loop_spec:
  "a < 20 \<Longrightarrow>
   \<exists>k. a \<le> k \<and> k < 20 \<and>
     attempt_loop lvl b rnd a =
       (generateDeck lvl (rnd k), calculateMinMoves (- b) (generateDeck lvl (rnd k)), k + 1) \<and>
     (\<forall>i. a \<le> i \<and> i < k \<longrightarrow> 6 < calculateMinMoves (- b) (generateDeck lvl (rnd i))) \<and>
     (calculateMinMoves (- b) (generateDeck lvl (rnd k)) \<le> 6 \<or> k = 19)"
proof (induction lvl b rnd a rule: attempt_loop.induct)
  case (1 lvl b rnd a)
  let ?res = "\<lambda>i. calculateMinMoves (- b) (generateDeck lvl (rnd i))"
  show ?case
  proof (cases "6 < ?res a \<and> a + 1 < 20")
    case True
    then have eq: "attempt_loop lvl b rnd a = attempt_loop lvl b rnd (a + 1)"
      by (subst attempt_loop.simps) (simp add: Let_def)
    from "1.IH" [OF refl refl] True obtain k where k: "a + 1 \<le> k" "k < 20"
      "attempt_loop lvl b rnd (a + 1) = (generateDeck lvl (rnd k), ?res k, k + 1)"
      "\<forall>i. a + 1 \<le> i \<and> i < k \<longrightarrow> 6 < ?res i" "?res k \<le> 6 \<or> k = 19"
      by auto
    have "6 < ?res i" if "a \<le> i \<and> i < k" for i
    proof (cases "i = a")
      case True
      with \<open>6 < ?res a \<and> a + 1 < 20\<close> show ?thesis by simp
    next
      case False
      with that k(4) show ?thesis by simp
    qed
    with k eq have "a \<le> k \<and> k < 20 \<and>
        attempt_loop lvl b rnd a = (generateDeck lvl (rnd k), ?res k, k + 1) \<and>
        (\<forall>i. a \<le> i \<and> i < k \<longrightarrow> 6 < ?res i) \<and> (?res k \<le> 6 \<or> k = 19)"
      by simp
    then show ?thesis by blast
  next
    case False
    then have eq: "attempt_loop lvl b rnd a = (generateDeck lvl (rnd a), ?res a, a + 1)"
      by (subst attempt_loop.simps) (auto simp add: Let_def)
    from False "1.prems" have "?res a \<le> 6 \<or> a = 19" by auto
    with eq "1.prems" have "a \<le> a \<and> a < 20 \<and>
        attempt_loop lvl b rnd a = (generateDeck lvl (rnd a), ?res a, a + 1) \<and>
        (\<forall>i. a \<le> i \<and> i < a \<longrightarrow> 6 < ?res i) \<and> (?res a \<le> 6 \<or> a = 19)"
      by simp
    then show ?thesis by blast
  qed
qed

lemma initLevel_fields:
  assumes "attempt_loop (level g) (initial_b r g) (deck_draws r) 0 = (newDeck, optimal, attempts)"
  shows "deck (initLevel r g) = newDeck" "minMoves (initLevel r g) = optimal"
    "generateDeck_calls r g = attempts" "leftConstant (initLevel r g) = initial_b r g"
    "gameState (initLevel r g) = Playing" "undoAvailable (initLevel r g) = 1"
    "moves (initLevel r g) = 0" "moveHistory (initLevel r g) = []"
  using assms by (simp_all add: initLevel_def initial_b_def generateDeck_calls_def Let_def)

text \<open>
  C7. One invocation of \<open>initLevel\<close> calls \<open>generateDeck\<close> at most \<open>20\<close> times. With the calls
  numbered from \<open>0\<close>, it keeps the deck of the first call \<open>k\<close> whose solver result against the
  target \<open>-b\<close> is at most \<open>6\<close>; when no call has such a result it keeps the deck of the
  twentieth call, \<open>k = 19\<close>. Either way the kept deck and its solver result are stored and
  the screen changes to the game: there is no failure signal.
\<close>

theorem initLevel_attempts:
  "\<exists>k < 20. generateDeck_calls r g = k + 1 \<and>
     deck (initLevel r g) = generateDeck (level g) (deck_draws r k) \<and>
     minMoves (initLevel r g) = calculateMinMoves (- initial_b r g) (deck (initLevel r g)) \<and>
     (\<forall>i < k. 6 < calculateMinMoves (- initial_b r g) (generateDeck (level g) (deck_draws r i))) \<and>
     (minMoves (initLevel r g) \<le> 6 \<or> k = 19) \<and>
     leftConstant (initLevel r g) = initial_b r g \<and>
     gameState (initLevel r g) = Playing"
proof -
  let ?res = "\<lambda>i. calculateMinMoves (- initial_b r g) (generateDeck (level g) (deck_draws r i))"
  have "(0::nat) < 20" by simp
  from attempt_loop_spec [OF this, of "level g" "initial_b r g" "deck_draws r"]
  obtain k where k: "k < 20"
    "attempt_loop (level g) (initial_b r g) (deck_draws r) 0 =
       (generateDeck (level g) (deck_draws r k), ?res k, k + 1)"
    "\<forall>i. 0 \<le> i \<and> i < k \<longrightarrow> 6 < ?res i" "?res k \<le> 6 \<or> k = 19"
    by blast
  note f = initLevel_fields [OF k(2)]
  have "generateDeck_calls r g = k + 1 \<and>
     deck (initLevel r g) = generateDeck (level g) (deck_draws r k) \<and>
     minMoves (initLevel r g) = calculateMinMoves (- initial_b r g) (deck (initLevel r g)) \<and>
     (\<forall>i < k. 6 < ?res i) \<and>
     (minMoves (initLevel r g) \<le> 6 \<or> k = 19) \<and>
     leftConstant (initLevel r g) = initial_b r g \<and>
     gameState (initLevel r g) = Playing"
    using k(3,4) by (simp add: f)
  with k(1) show ?thesis by blast
qed

text \<open>
  At level \<open>4\<close> with \<open>b = 4\<close>, a random source that yields the deck \<open>-5, +5, +4\<close> at every
  call makes all twenty attempts fail (the target \<open>-4\<close> takes eight applications): the
  generator is called twenty times and the twentieth deck is kept.
\<close>

theorem initLevel_attempts_witness:
  "generateDeck_calls
     \<lparr>draw_b = 9/10, draw_solution = 0,
       deck_draws = (\<lambda>i. \<lparr>value1 = 9/10, value2 = 9/10, value3 = 7/10, type3 = 9/10,
         shuffle = [0, 1, 2]\<rparr>)\<rparr>
     \<lparr>level = 4, gameState = Menu, deck = [], leftConstant = 0, rightValue = 0, moves = 0,
       minMoves = 0, moveHistory = [], undoAvailable = 1, isAnimating = False\<rparr> = 20 \<and>
   deck (initLevel
     \<lparr>draw_b = 9/10, draw_solution = 0,
       deck_draws = (\<lambda>i. \<lparr>value1 = 9/10, value2 = 9/10, value3 = 7/10, type3 = 9/10,
         shuffle = [0, 1, 2]\<rparr>)\<rparr>
     \<lparr>level = 4, gameState = Menu, deck = [], leftConstant = 0, rightValue = 0, moves = 0,
       minMoves = 0, moveHistory = [], undoAvailable = 1, isAnimating = False\<rparr>) = [\<lparr>type = Antimatter, val = 5\<rparr>, \<lparr>type = Matter, val = 5\<rparr>, \<lparr>type = Matter, val = 4\<rparr>] \<and>
   minMoves (initLevel
     \<lparr>draw_b = 9/10, draw_solution = 0,
       deck_draws = (\<lambda>i. \<lparr>value1 = 9/10, value2 = 9/10, value3 = 7/10, type3 = 9/10,
         shuffle = [0, 1, 2]\<rparr>)\<rparr>
     \<lparr>level = 4, gameState = Menu, deck = [], leftConstant = 0, rightValue = 0, moves = 0,
       minMoves = 0, moveHistory = [], undoAvailable = 1, isAnimating = False\<rparr>) = 8 \<and>
   gameState (initLevel
     \<lparr>draw_b = 9/10, draw_solution = 0,
       deck_draws = (\<lambda>i. \<lparr>value1 = 9/10, value2 = 9/10, value3 = 7/10, type3 = 9/10,
         shuffle = [0, 1, 2]\<rparr>)\<rparr>
     \<lparr>level = 4, gameState = Menu, deck = [], leftConstant = 0, rightValue = 0, moves = 0,
       minMoves = 0, moveHistory = [], undoAvailable = 1, isAnimating = False\<rparr>) = Playing"
proof -
  let ?r = "\<lparr>draw_b = 9/10, draw_solution = 0,
       deck_draws = (\<lambda>i. \<lparr>value1 = 9/10, value2 = 9/10, value3 = 7/10, type3 = 9/10,
         shuffle = [0, 1, 2]\<rparr>)\<rparr>"
  let ?g = "\<lparr>level = 4, gameState = Menu, deck = [], leftConstant = 0, rightValue = 0, moves = 0,
       minMoves = 0, moveHistory = [], undoAvailable = 1, isAnimating = False\<rparr>"
  let ?d = "[\<lparr>type = Antimatter, val = 5\<rparr>, \<lparr>type = Matter, val = 5\<rparr>, \<lparr>type = Matter, val = 4\<rparr>]"
  have b: "initial_b ?r ?g = 4"
    by (simp add: initial_b_def Let_def)
  have gd: "generateDeck 4 (deck_draws ?r i) = ?d" for i
    by (simp add: generateDeck_def create_def Let_def)
  have cm: "calculateMinMoves (- 4) ?d = 8"
    by (simp add: calculateMinMoves_def delta_def Let_def)
  from initLevel_attempts [of ?r ?g] obtain k where k: "k < 20"
    "generateDeck_calls ?r ?g = k + 1"
    "deck (initLevel ?r ?g) = generateDeck (level ?g) (deck_draws ?r k)"
    "minMoves (initLevel ?r ?g) = calculateMinMoves (- initial_b ?r ?g) (deck (initLevel ?r ?g))"
    "minMoves (initLevel ?r ?g) \<le> 6 \<or> k = 19"
    "gameState (initLevel ?r ?g) = Playing"
    by blast
  from k(3) have d: "deck (initLevel ?r ?g) = ?d"
    using gd [of k] by simp
  with k(4) b cm have m: "minMoves (initLevel ?r ?g) = 8" by simp
  with k(5) have "k = 19" by simp
  with k(2) have "generateDeck_calls ?r ?g = 20" by simp
  with d m k(6) show ?thesis by blast
qed

subsection \<open>Applying a card and undoing: claims\<close>

lemma undo_back:
  "(if type c = Antimatter then val c else - val c) = - delta c"
  by (simp add: delta_def)

lemma handleUndo_enabled:
  assumes "undo_enabled g"
  shows "handleUndo g =
     g\<lparr>leftConstant := leftConstant g - delta (last (moveHistory g)),
       rightValue := rightValue g - delta (last (moveHistory g)),
       moves := moves g - 1, undoAvailable := undoAvailable g - 1,
       moveHistory := butlast (moveHistory g)\<rparr>"
proof -
  from assms have "\<not> (moveHistory g = [] \<or> isAnimating g \<or> undoAvailable g \<le> 0)"
    by (auto simp add: undo_enabled_def)
  then show ?thesis
    unfolding handleUndo_def Let_def undo_back by simp
qed

lemma handleUndo_refused: "\<not> undo_enabled g \<Longrightarrow> handleUndo g = g"
  by (auto simp add: undo_enabled_def handleUndo_def)

lemma step_difference:
  "rightValue (step e g) - leftConstant (step e g) = rightValue g - leftConstant g"
proof (cases e)
  case (Click c)
  then show ?thesis by (simp add: handleCardClick_def)
next
  case (Commit c)
  then show ?thesis by (simp add: handleCardClick_commit_def)
next
  case Undo
  then show ?thesis
    by (cases "undo_enabled g") (simp_all add: handleUndo_enabled handleUndo_refused)
qed

lemma run_difference:
  "rightValue (run es g) - leftConstant (run es g) = rightValue g - leftConstant g"
  by (induction es arbitrary: g) (simp_all add: step_difference)

text \<open>
  C8. For every state and every card, the commit of a card application adds the signed
  delta of the card to both \<open>leftConstant\<close> and \<open>rightValue\<close>, and an undo adds the negated
  delta of the last card of the history to both. Hence \<open>rightValue - leftConstant\<close> is the
  same after every event (click, commit or undo) and after every sequence of events.
\<close>

theorem difference_preserved:
  "leftConstant (handleCardClick_commit c g) = leftConstant g + delta c \<and>
   rightValue (handleCardClick_commit c g) = rightValue g + delta c \<and>
   (undo_enabled g \<longrightarrow>
      leftConstant (handleUndo g) = leftConstant g + (- delta (last (moveHistory g))) \<and>
      rightValue (handleUndo g) = rightValue g + (- delta (last (moveHistory g)))) \<and>
   rightValue (step e g) - leftConstant (step e g) = rightValue g - leftConstant g \<and>
   rightValue (run es g) - leftConstant (run es g) = rightValue g - leftConstant g"
proof -
  have commit: "leftConstant (handleCardClick_commit c g) = leftConstant g + delta c \<and>
      rightValue (handleCardClick_commit c g) = rightValue g + delta c"
    by (simp add: handleCardClick_commit_def)
  have undo: "leftConstant (handleUndo g) = leftConstant g + (- delta (last (moveHistory g))) \<and>
      rightValue (handleUndo g) = rightValue g + (- delta (last (moveHistory g)))"
    if "undo_enabled g"
    by (simp add: handleUndo_enabled [OF that])
  from commit undo step_difference [of e g] run_difference [of es g] show ?thesis
    by blast
qed

theorem difference_preserved_witness:
  "undo_enabled
     \<lparr>level = 1, gameState = Playing, deck = [], leftConstant = 3, rightValue = 4, moves = 1,
       minMoves = 2, moveHistory = [\<lparr>type = Matter, val = 2\<rparr>], undoAvailable = 1,
       isAnimating = False\<rparr> \<and>
   leftConstant (handleUndo
     \<lparr>level = 1, gameState = Playing, deck = [], leftConstant = 3, rightValue = 4, moves = 1,
       minMoves = 2, moveHistory = [\<lparr>type = Matter, val = 2\<rparr>], undoAvailable = 1,
       isAnimating = False\<rparr>) = 1 \<and>
   rightValue (handleUndo
     \<lparr>level = 1, gameState = Playing, deck = [], leftConstant = 3, rightValue = 4, moves = 1,
       minMoves = 2, moveHistory = [\<lparr>type = Matter, val = 2\<rparr>], undoAvailable = 1,
       isAnimating = False\<rparr>) = 2"
proof -
  let ?g = "\<lparr>level = 1, gameState = Playing, deck = [], leftConstant = 3, rightValue = 4, moves = 1,
       minMoves = 2, moveHistory = [\<lparr>type = Matter, val = 2\<rparr>], undoAvailable = 1,
       isAnimating = False\<rparr>"
  have h: "undo_enabled ?g" by (simp add: undo_enabled_def)
  from difference_preserved [of "\<lparr>type = Matter, val = 2\<rparr>" ?g Undo "[]"] h
  have "leftConstant (handleUndo ?g) = leftConstant ?g + (- delta (last (moveHistory ?g)))"
    and "rightValue (handleUndo ?g) = rightValue ?g + (- delta (last (moveHistory ?g)))"
    by blast+
  with h show ?thesis by (simp add: delta_def)
qed

lemma step_undoAvailable:
  "undoAvailable (step e g) =
     (if e = Undo \<and> undo_enabled g then undoAvailable g - 1 else undoAvailable g)"
proof (cases e)
  case (Click c)
  then show ?thesis by (simp add: handleCardClick_def)
next
  case (Commit c)
  then show ?thesis by (simp add: handleCardClick_commit_def)
next
  case Undo
  then show ?thesis
    by (cases "undo_enabled g") (simp_all add: handleUndo_enabled handleUndo_refused)
qed

lemma undos_budget: "int (undos es g) \<le> max 0 (undoAvailable g)"
proof (induction es arbitrary: g)
  case Nil
  then show ?case by simp
next
  case (Cons e es)
  show ?case
  proof (cases "e = Undo \<and> undo_enabled g")
    case True
    then have "0 < undoAvailable g" by (simp add: undo_enabled_def)
    moreover from True have "undoAvailable (step e g) = undoAvailable g - 1"
      by (auto simp add: handleUndo_enabled)
    ultimately show ?thesis
      using Cons.IH [of "step e g"] True by simp
  next
    case False
    then have "undoAvailable (step e g) = undoAvailable g"
      by (simp add: step_undoAvailable)
    then show ?thesis
      using Cons.IH [of "step e g"] False by auto
  qed
qed

lemma round_trip:
  assumes "\<not> isAnimating g" "0 < undoAvailable g"
  shows "handleUndo (handleCardClick_commit c (handleCardClick c g)) =
         g\<lparr>undoAvailable := undoAvailable g - 1\<rparr>"
proof -
  let ?g2 = "handleCardClick_commit c (handleCardClick c g)"
  have g2: "?g2 = g\<lparr>leftConstant := leftConstant g + delta c,
      rightValue := rightValue g + delta c, moves := moves g + 1,
      moveHistory := moveHistory g @ [c]\<rparr>"
    using assms(1) by (simp add: handleCardClick_def handleCardClick_commit_def)
  have "undo_enabled ?g2"
    using assms by (simp add: g2 undo_enabled_def)
  from handleUndo_enabled [OF this] show ?thesis
    by (simp add: g2)
qed

text \<open>
  C9. Undoing the card application just committed restores \<open>leftConstant\<close>, \<open>rightValue\<close>
  and the move count (and the history) to their values before the application. The undo
  budget is \<open>1\<close> after \<open>initLevel\<close>, every undo that is carried out takes \<open>1\<close> from it, and
  the undo is refused (the state is left as it is) when the budget is \<open>0\<close> or the history
  is empty; so in every sequence of events that follows \<open>initLevel\<close> at most one undo is
  carried out.
\<close>

theorem undo_once:
  "(\<not> isAnimating g \<and> 0 < undoAvailable g \<longrightarrow>
      leftConstant (handleUndo (handleCardClick_commit c (handleCardClick c g))) = leftConstant g \<and>
      rightValue (handleUndo (handleCardClick_commit c (handleCardClick c g))) = rightValue g \<and>
      moves (handleUndo (handleCardClick_commit c (handleCardClick c g))) = moves g \<and>
      moveHistory (handleUndo (handleCardClick_commit c (handleCardClick c g))) = moveHistory g) \<and>
   undoAvailable (initLevel r g) = 1 \<and>
   (undo_enabled g \<longrightarrow> undoAvailable (handleUndo g) = undoAvailable g - 1) \<and>
   (undoAvailable g = 0 \<or> moveHistory g = [] \<longrightarrow> handleUndo g = g) \<and>
   undos es (initLevel r g) \<le> 1"
proof -
  have init: "undoAvailable (initLevel r g) = 1"
    by (cases "attempt_loop (level g) (initial_b r g) (deck_draws r) 0")
      (simp add: initLevel_fields(6))
  have "int (undos es (initLevel r g)) \<le> 1"
    using undos_budget [of es "initLevel r g"] init by simp
  then have once: "undos es (initLevel r g) \<le> 1" by simp
  have refused: "handleUndo g = g" if "undoAvailable g = 0 \<or> moveHistory g = []"
    using that by (auto simp add: handleUndo_def)
  show ?thesis
    using init once refused by (auto simp add: round_trip handleUndo_enabled)
qed

theorem undo_once_witness:
  "\<not> isAnimating
     \<lparr>level = 1, gameState = Playing, deck = [], leftConstant = 3, rightValue = 4, moves = 1,
       minMoves = 2, moveHistory = [\<lparr>type = Matter, val = 2\<rparr>], undoAvailable = 1,
       isAnimating = False\<rparr> \<and>
   0 < undoAvailable
     \<lparr>level = 1, gameState = Playing, deck = [], leftConstant = 3, rightValue = 4, moves = 1,
       minMoves = 2, moveHistory = [\<lparr>type = Matter, val = 2\<rparr>], undoAvailable = 1,
       isAnimating = False\<rparr> \<and>
   handleUndo (handleCardClick_commit \<lparr>type = Antimatter, val = 3\<rparr>
     (handleCardClick \<lparr>type = Antimatter, val = 3\<rparr>
     \<lparr>level = 1, gameState = Playing, deck = [], leftConstant = 3, rightValue = 4, moves = 1,
       minMoves = 2, moveHistory = [\<lparr>type = Matter, val = 2\<rparr>], undoAvailable = 1,
       isAnimating = False\<rparr>)) =
     \<lparr>level = 1, gameState = Playing, deck = [], leftConstant = 3, rightValue = 4, moves = 1,
       minMoves = 2, moveHistory = [\<lparr>type = Matter, val = 2\<rparr>], undoAvailable = 1,
       isAnimating = False\<rparr>
       \<lparr>undoAvailable := 0\<rparr> \<and>
   leftConstant (handleUndo (handleCardClick_commit \<lparr>type = Antimatter, val = 3\<rparr>
     (handleCardClick \<lparr>type = Antimatter, val = 3\<rparr>
     \<lparr>level = 1, gameState = Playing, deck = [], leftConstant = 3, rightValue = 4, moves = 1,
       minMoves = 2, moveHistory = [\<lparr>type = Matter, val = 2\<rparr>], undoAvailable = 1,
       isAnimating = False\<rparr>))) = 3"
proof -
  let ?g = "\<lparr>level = 1, gameState = Playing, deck = [], leftConstant = 3, rightValue = 4, moves = 1,
       minMoves = 2, moveHistory = [\<lparr>type = Matter, val = 2\<rparr>], undoAvailable = 1,
       isAnimating = False\<rparr>"
  let ?c = "\<lparr>type = Antimatter, val = 3\<rparr>"
  have h: "\<not> isAnimating ?g \<and> 0 < undoAvailable ?g" by simp
  have e: "handleUndo (handleCardClick_commit ?c (handleCardClick ?c ?g)) = ?g\<lparr>undoAvailable := 0\<rparr>"
    by (simp add: handleUndo_def handleCardClick_commit_def handleCardClick_def delta_def Let_def)
  let ?r = "\<lparr>draw_b = 0, draw_solution = 0,
      deck_draws = (\<lambda>i. \<lparr>value1 = 0, value2 = 0, value3 = 0, type3 = 0,
        shuffle = [0, 1, 2]\<rparr>)\<rparr>"
  from undo_once [of ?g ?c ?r "[]"] h
  have "leftConstant (handleUndo (handleCardClick_commit ?c (handleCardClick ?c ?g)))
      = leftConstant ?g"
    by blast
  with h e show ?thesis by simp
qed

end
